theory Spec2Isabelle
  imports Complex_Main "HOL-Library.Sublist"
begin

section \<open>Python values used by \<^verbatim>\<open>capture_bore.py\<close>\<close>

text \<open>
  A \<^verbatim>\<open>bytes\<close> object is a list of 8-bit characters, so that a stream can be written
  as a literal (\<open>''bore.pub:1234''\<close>). A \<^verbatim>\<open>str\<close> is a list of Unicode code points.
  \<open>asc\<close> reads an ASCII literal as a \<^verbatim>\<open>str\<close>.
\<close>

type_synonym byte = char

type_synonym ustr = "nat list"

definition asc :: "string \<Rightarrow> ustr" where
  "asc s = map of_char s"

subsection \<open>\<^verbatim>\<open>bytes.decode('utf-8', errors='ignore')\<close>\<close>

text \<open>
  The decoder of the interpreter, on byte values. \<open>utf8_step b bs\<close> looks at the lead byte
  \<open>b\<close> and the bytes after it and gives the code point it decodes (none when the
  sequence is malformed or cut off by the end of the data) and how many of the bytes
  after \<open>b\<close> it consumes. A malformed sequence is dropped up to, not including, the
  byte that breaks it; a sequence cut off by the end of the data is dropped whole.
\<close>

definition is_continuation :: "nat \<Rightarrow> bool" where
  "is_continuation b = (128 \<le> b \<and> b < 192)"

definition utf8_two :: "nat \<Rightarrow> nat list \<Rightarrow> ustr \<times> nat" where
  "utf8_two b bs =
     (case bs of
        [] \<Rightarrow> ([], 0)
      | b2 # r2 \<Rightarrow>
          if is_continuation b2 then ([(b - 192) * 64 + (b2 - 128)], 1) else ([], 0))"

definition utf8_three :: "nat \<Rightarrow> nat list \<Rightarrow> ustr \<times> nat" where
  "utf8_three b bs =
     (case bs of
        [] \<Rightarrow> ([], 0)
      | b2 # r2 \<Rightarrow>
          if \<not> is_continuation b2 \<or> (b = 224 \<and> b2 < 160) \<or> (b = 237 \<and> 160 \<le> b2)
          then ([], 0)
          else (case r2 of
                  [] \<Rightarrow> ([], 1)
                | b3 # r3 \<Rightarrow>
                    if is_continuation b3
                    then ([(b - 224) * 4096 + (b2 - 128) * 64 + (b3 - 128)], 2)
                    else ([], 1)))"

definition utf8_four :: "nat \<Rightarrow> nat list \<Rightarrow> ustr \<times> nat" where
  "utf8_four b bs =
     (case bs of
        [] \<Rightarrow> ([], 0)
      | b2 # r2 \<Rightarrow>
          if \<not> is_continuation b2 \<or> (b = 240 \<and> b2 < 144) \<or> (b = 244 \<and> 144 \<le> b2)
          then ([], 0)
          else (case r2 of
                  [] \<Rightarrow> ([], 1)
                | b3 # r3 \<Rightarrow>
                    if \<not> is_continuation b3 then ([], 1)
                    else (case r3 of
                            [] \<Rightarrow> ([], 2)
                          | b4 # r4 \<Rightarrow>
                              if is_continuation b4
                              then ([(b - 240) * 262144 + (b2 - 128) * 4096
                                      + (b3 - 128) * 64 + (b4 - 128)], 3)
                              else ([], 2))))"

definition utf8_step :: "nat \<Rightarrow> nat list \<Rightarrow> ustr \<times> nat" where
  "utf8_step b bs =
     (if b < 128 then ([b], 0)
      else if b < 194 then ([], 0)
      else if b < 224 then utf8_two b bs
      else if b < 240 then utf8_three b bs
      else if b < 245 then utf8_four b bs
      else ([], 0))"

function utf8_ignore :: "nat list \<Rightarrow> ustr" where
  "utf8_ignore [] = []"
| "utf8_ignore (b # bs) =
     fst (utf8_step b bs) @ utf8_ignore (drop (snd (utf8_step b bs)) bs)"
  by pat_completeness auto

termination
  by (relation "measure length") auto

definition decode :: "byte list \<Rightarrow> ustr" where
  "decode bs = utf8_ignore (map of_char bs)"

subsection \<open>Digits, the marker and the regular expression\<close>

text \<open>
  The Unicode character database is not part of the program: its two digit classes are
  parameters. \<open>decimal\<close> is category Nd, which \<^verbatim>\<open>\d\<close> matches on a \<^verbatim>\<open>str\<close>;
  \<open>digit\<close> is what \<^verbatim>\<open>str.isdigit\<close> accepts. Below 128 both are the characters
  \<^verbatim>\<open>0\<close> to \<^verbatim>\<open>9\<close>.
\<close>

record unicode =
  decimal :: "nat \<Rightarrow> bool"
  digit :: "nat \<Rightarrow> bool"

definition ascii_digit :: "nat \<Rightarrow> bool" where
  "ascii_digit c = (48 \<le> c \<and> c \<le> 57)"

definition re_digit :: "unicode \<Rightarrow> nat \<Rightarrow> bool" where
  "re_digit U c = (if c < 128 then ascii_digit c else decimal U c)"

definition isdigit :: "unicode \<Rightarrow> ustr \<Rightarrow> bool" where
  "isdigit U s =
     (s \<noteq> [] \<and> list_all (\<lambda>c. if c < 128 then ascii_digit c else digit U c) s)"

definition marker :: ustr where
  "marker = asc ''bore.pub:''"

text \<open>
  \<^verbatim>\<open>re.search(r'bore\.pub:(\d{4,5})', s)\<close>: the leftmost position where the marker
  is followed by at least four digits; group 1 is greedy, four or five of them.
\<close>

fun strip_prefix :: "ustr \<Rightarrow> ustr \<Rightarrow> ustr option" where
  "strip_prefix [] s = Some s"
| "strip_prefix (p # ps) [] = None"
| "strip_prefix (p # ps) (c # cs) = (if p = c then strip_prefix ps cs else None)"

definition re_match_at :: "unicode \<Rightarrow> ustr \<Rightarrow> ustr option" where
  "re_match_at U s =
     (case strip_prefix marker s of
        None \<Rightarrow> None
      | Some rest \<Rightarrow>
          (let ds = takeWhile (re_digit U) (take 5 rest)
           in if 4 \<le> length ds then Some ds else None))"

fun re_search :: "unicode \<Rightarrow> ustr \<Rightarrow> ustr option" where
  "re_search U [] = re_match_at U []"
| "re_search U (c # cs) =
     (case re_match_at U (c # cs) of
        Some g \<Rightarrow> Some g
      | None \<Rightarrow> re_search U cs)"

section \<open>The environment and the effects\<close>

text \<open>
  The program talks to a child process, a clock, a mail relay and the console. What the
  environment answers is an input of the model; what the program does to it is a log of
  effects, in order.
\<close>

datatype exn = KeyboardInterrupt | OSError | SMTPException | ValueError

text \<open>\<^verbatim>\<open>except Exception\<close> catches every class but \<^verbatim>\<open>KeyboardInterrupt\<close>;
  a bare \<^verbatim>\<open>except:\<close> catches all of them.\<close>

definition is_Exception :: "exn \<Rightarrow> bool" where
  "is_Exception x = (x \<noteq> KeyboardInterrupt)"

type_synonym handle = nat

text \<open>\<^verbatim>\<open>process.stdout.read(1)\<close> returns one byte, returns \<^verbatim>\<open>b''\<close> at end of file,
  or raises.\<close>

datatype read_result = Byte byte | Eof | ReadRaises exn

text \<open>
  One iteration of the loop, as the environment answers its calls; exceptions arise at
  these calls (the clock, the read, the print, the sleep). \<open>test\<close> is what
  evaluating the loop condition gives: the value of \<^verbatim>\<open>time.time() - start_time\<close>, or
  the exception raised there (an interrupt). \<open>result\<close> is what the read gives if the
  body runs. \<open>print_raises\<close> is the exception of the \<^verbatim>\<open>print\<close> call of the iteration,
  if the iteration prints and the call fails. \<open>sleep_raises\<close> is the exception of the
  \<^verbatim>\<open>time.sleep(0.01)\<close> of the handler, if the handler runs and the sleep is
  interrupted. The list of ticks ends where the environment stops answering: the next
  read blocks for ever.

  \<open>Tick e r\<close> is the iteration in which nothing but the read can raise.
\<close>

datatype tick =
  Iteration (test: "exn + real") (result: read_result)
    (print_raises: "exn option") (sleep_raises: "exn option")

definition Tick :: "real \<Rightarrow> read_result \<Rightarrow> tick" where
  "Tick e r = Iteration (Inr e) r None None"

datatype smtp_step = Connect | Starttls | Login | SendMessage | Quit

datatype wait_result = WaitReturns | WaitRaises exn | WaitForever

record world =
  spawn :: "exn + handle"
  ticks :: "tick list"
  smtp :: "smtp_step \<Rightarrow> exn option"
  wait :: wait_result
  rerun :: wait_result

datatype msg =
    Starting
  | Reading
  | FoundMarker
  | CapturedPort ustr
  | TimeoutReached
  | Rule
  | Success ustr
  | EmailSentTo
  | EmailFailed exn
  | EmailOk
  | EmailFailedUrlShown
  | BoreRunning
  | Stopped
  | CouldNotCapture
  | RunningDirectly

datatype effect =
    Print msg
  | Popen
  | Sleep
  | Smtp smtp_step
  | WaitFor handle
  | Terminate handle
  | Run

datatype 'a outcome = Returns 'a | Raises exn | Hangs

definition emit :: "effect list \<Rightarrow> effect list \<times> 'a \<Rightarrow> effect list \<times> 'a" where
  "emit out r = (out @ fst r, snd r)"

section \<open>\<^verbatim>\<open>capture_bore_url\<close>\<close>

record scan =
  output' :: "byte list"
  found_bore_pub :: bool
  port_digits :: ustr

definition fast_url :: "ustr \<Rightarrow> ustr" where
  "fast_url port = asc ''http://bore.pub:'' @ port @ asc ''/opds/all''"

definition fallback_url :: "ustr \<Rightarrow> ustr" where
  "fallback_url port = asc ''http://bore.pub:'' @ port @ asc ''/''"

text \<open>The statements of the \<^verbatim>\<open>try\<close> block after a read that gave the byte \<open>b\<close>:
  the effects, the new state, and how the block is left: by an exception, by falling
  through (\<open>Inr None\<close>) or by returning a URL. \<open>pr\<close> is the exception of a failing
  \<^verbatim>\<open>print\<close>. The print that announces the marker stands in the inner \<^verbatim>\<open>try\<close>, whose
  \<^verbatim>\<open>except: pass\<close> swallows its exception; the print that announces the port stands
  before the \<^verbatim>\<open>return\<close>, and its exception leaves the block.\<close>

definition on_byte ::
  "unicode \<Rightarrow> exn option \<Rightarrow> scan \<Rightarrow> byte \<Rightarrow> effect list \<times> scan \<times> (exn + ustr option)" where
  "on_byte U pr st b =
     (let st1 = st\<lparr>output' := output' st @ [b]\<rparr>;
          char = decode [b]
      in if \<not> found_bore_pub st1 then
           (if sublist marker (decode (output' st1))
            then ((case pr of None \<Rightarrow> [Print FoundMarker] | Some x \<Rightarrow> []),
                  st1\<lparr>found_bore_pub := True\<rparr>, Inr None)
            else ([], st1, Inr None))
         else if isdigit U char then
           ([], st1\<lparr>port_digits := port_digits st1 @ char\<rparr>, Inr None)
         else if port_digits st1 \<noteq> [] \<and> \<not> isdigit U char then
           (if 4 \<le> length (port_digits st1)
            then (case pr of
                    None \<Rightarrow> ([Print (CapturedPort (port_digits st1))], st1,
                             Inr (Some (fast_url (port_digits st1))))
                  | Some x \<Rightarrow> ([], st1, Inl x))
            else ([], st1, Inr None))
         else ([], st1, Inr None))"

text \<open>The \<^verbatim>\<open>try\<close> block of one iteration.\<close>

definition try_body ::
  "unicode \<Rightarrow> tick \<Rightarrow> scan \<Rightarrow> effect list \<times> scan \<times> (exn + ustr option)" where
  "try_body U t st =
     (case result t of
        ReadRaises x \<Rightarrow> ([], st, Inl x)
      | Eof \<Rightarrow> ([], st, Inr None)
      | Byte b \<Rightarrow> on_byte U (print_raises t) st b)"

datatype loop_exit = FastPath ustr | Expired scan | Blocked | Escaped exn

text \<open>The \<^verbatim>\<open>while\<close> loop. The loop test and the \<^verbatim>\<open>time.sleep(0.01)\<close> of the bare
  \<^verbatim>\<open>except:\<close> stand outside the \<^verbatim>\<open>try\<close> block: what they raise leaves the loop.
  After the sleep the loop goes on with the state the block left.\<close>

fun scan_loop :: "unicode \<Rightarrow> scan \<Rightarrow> tick list \<Rightarrow> effect list \<times> loop_exit" where
  "scan_loop U st [] = ([], Blocked)"
| "scan_loop U st (t # ts) =
     (case test t of
        Inl x \<Rightarrow> ([], Escaped x)
      | Inr e \<Rightarrow>
          if e < 15 then
            (case try_body U t st of
               (out, st', Inl x) \<Rightarrow>
                 (case sleep_raises t of
                    Some y \<Rightarrow> (out @ [Sleep], Escaped y)
                  | None \<Rightarrow> emit (out @ [Sleep]) (scan_loop U st' ts))
             | (out, st', Inr (Some url)) \<Rightarrow> (out, FastPath url)
             | (out, st', Inr None) \<Rightarrow> emit out (scan_loop U st' ts))
          else ([], Expired st))"

definition fallback :: "unicode \<Rightarrow> scan \<Rightarrow> effect list \<times> ustr option" where
  "fallback U st =
     (let full_output = decode (output' st)
      in ([Print TimeoutReached],
          case re_search U full_output of
            Some port \<Rightarrow> Some (fallback_url port)
          | None \<Rightarrow> None))"

definition init :: scan where
  "init = \<lparr>output' = [], found_bore_pub = False, port_digits = []\<rparr>"

definition capture_bore_url ::
  "unicode \<Rightarrow> world \<Rightarrow> effect list \<times> (ustr option \<times> handle) outcome" where
  "capture_bore_url U w =
     (case spawn w of
        Inl x \<Rightarrow> ([Print Starting, Popen], Raises x)
      | Inr process \<Rightarrow>
          emit [Print Starting, Popen, Print Reading]
            (case scan_loop U init (ticks w) of
               (out, FastPath url) \<Rightarrow> (out, Returns (Some url, process))
             | (out, Blocked) \<Rightarrow> (out, Hangs)
             | (out, Escaped x) \<Rightarrow> (out, Raises x)
             | (out, Expired st) \<Rightarrow>
                 (out @ fst (fallback U st), Returns (snd (fallback U st), process))))"

section \<open>\<^verbatim>\<open>send_email\<close>\<close>

text \<open>The steps run in order up to the first one that raises; the value is that
  exception, if any.\<close>

fun smtp_steps :: "(smtp_step \<Rightarrow> exn option) \<Rightarrow> smtp_step list \<Rightarrow> effect list \<times> exn option" where
  "smtp_steps env [] = ([], None)"
| "smtp_steps env (s # ss) =
     (case env s of
        Some x \<Rightarrow> ([Smtp s], Some x)
      | None \<Rightarrow> emit [Smtp s] (smtp_steps env ss))"

text \<open>
  The \<^verbatim>\<open>with smtplib.SMTP(...) as server\<close> block. When the connection fails there is
  no block to leave. Otherwise the steps of the body run, and on leaving the block,
  normally or by an exception, the library sends QUIT; an exception of QUIT replaces the
  one of the body. (\<open>SMTPException\<close> stands for the errors QUIT lets out.)
\<close>

definition smtp_session :: "(smtp_step \<Rightarrow> exn option) \<Rightarrow> effect list \<times> exn option" where
  "smtp_session env =
     (case env Connect of
        Some x \<Rightarrow> ([Smtp Connect], Some x)
      | None \<Rightarrow>
          ([Smtp Connect] @ fst (smtp_steps env [Starttls, Login, SendMessage]) @ [Smtp Quit],
           case env Quit of
             Some y \<Rightarrow> Some y
           | None \<Rightarrow> snd (smtp_steps env [Starttls, Login, SendMessage])))"

definition send_email :: "world \<Rightarrow> ustr \<Rightarrow> effect list \<times> bool outcome" where
  "send_email w url =
     (case smtp_session (smtp w) of
        (out, None) \<Rightarrow> (out @ [Print EmailSentTo], Returns True)
      | (out, Some x) \<Rightarrow>
          if is_Exception x then (out @ [Print (EmailFailed x)], Returns False)
          else (out, Raises x))"

section \<open>The main program\<close>

definition wait_phase :: "world \<Rightarrow> handle \<Rightarrow> effect list \<times> unit outcome" where
  "wait_phase w process =
     emit [Print BoreRunning, WaitFor process]
       (case wait w of
          WaitReturns \<Rightarrow> ([], Returns ())
        | WaitForever \<Rightarrow> ([], Hangs)
        | WaitRaises x \<Rightarrow>
            if x = KeyboardInterrupt
            then ([Terminate process, Print Stopped], Returns ())
            else ([], Raises x))"

definition run_directly :: "world \<Rightarrow> effect list \<times> unit outcome" where
  "run_directly w =
     emit [Print CouldNotCapture, Print RunningDirectly, Print Rule, Run]
       (case rerun w of
          WaitReturns \<Rightarrow> ([], Returns ())
        | WaitForever \<Rightarrow> ([], Hangs)
        | WaitRaises x \<Rightarrow> ([], Raises x))"

definition main :: "unicode \<Rightarrow> world \<Rightarrow> effect list \<times> unit outcome" where
  "main U w =
     (case capture_bore_url U w of
        (out, Raises x) \<Rightarrow> (out, Raises x)
      | (out, Hangs) \<Rightarrow> (out, Hangs)
      | (out, Returns (url, process)) \<Rightarrow>
          emit out
            (case url of
               None \<Rightarrow> run_directly w
             | Some u \<Rightarrow>
                 if u = [] then run_directly w
                 else
                   emit [Print Rule, Print (Success u), Print Rule]
                     (case send_email w u of
                        (out2, Raises x) \<Rightarrow> (out2, Raises x)
                      | (out2, Hangs) \<Rightarrow> (out2, Hangs)
                      | (out2, Returns sent) \<Rightarrow>
                          emit (out2 @ [Print (if sent then EmailOk else EmailFailedUrlShown)])
                            (wait_phase w process))))"

section \<open>Notions the properties are stated with\<close>

text \<open>A tick is live when its loop test passes and neither its print nor the sleep
  of the handler raises: the iteration runs, and only its read can raise. A tick is
  guarded when nothing raises outside the \<^verbatim>\<open>try\<close> block, that is at the loop test or
  in the sleep of the handler. The bytes of a list of ticks are those its reads give,
  in order.\<close>

definition live :: "tick \<Rightarrow> bool" where
  "live t =
     ((case test t of Inl x \<Rightarrow> False | Inr e \<Rightarrow> e < 15) \<and>
      print_raises t = None \<and> sleep_raises t = None)"

definition guarded :: "tick \<Rightarrow> bool" where
  "guarded t = ((case test t of Inl x \<Rightarrow> False | Inr e \<Rightarrow> True) \<and> sleep_raises t = None)"

fun bytes_of :: "tick list \<Rightarrow> byte list" where
  "bytes_of [] = []"
| "bytes_of (t # ts) = (case result t of Byte b \<Rightarrow> b # bytes_of ts | _ \<Rightarrow> bytes_of ts)"

definition digit_byte :: "byte \<Rightarrow> bool" where
  "digit_byte b = ascii_digit (of_char b)"

fun terminates :: "effect \<Rightarrow> bool" where
  "terminates (Terminate h) = True"
| "terminates _ = False"

text \<open>What the \<^verbatim>\<open>try\<close> block does with a byte when its prints succeed: the effects,
  the new state, and the URL when the function returns there.\<close>

definition step_byte :: "unicode \<Rightarrow> scan \<Rightarrow> byte \<Rightarrow> effect list \<times> scan \<times> ustr option" where
  "step_byte U st b =
     (fst (on_byte U None st b), fst (snd (on_byte U None st b)),
      case snd (snd (on_byte U None st b)) of Inl x \<Rightarrow> None | Inr u \<Rightarrow> u)"

text \<open>The bytes of a list fed to the state machine one after the other, up to the
  byte at which it returns a URL.\<close>

fun feed :: "unicode \<Rightarrow> scan \<Rightarrow> byte list \<Rightarrow> scan \<times> ustr option" where
  "feed U st [] = (st, None)"
| "feed U st (b # bs) =
     (case snd (snd (step_byte U st b)) of
        Some url \<Rightarrow> (fst (snd (step_byte U st b)), Some url)
      | None \<Rightarrow> feed U (fst (snd (step_byte U st b))) bs)"

text \<open>The bytes of \<open>bs\<close>, one per read, each read at a loop test that sees \<open>e\<close>
  seconds elapsed.\<close>

definition arrive :: "real \<Rightarrow> byte list \<Rightarrow> tick list" where
  "arrive e bs = map (\<lambda>b. Tick e (Byte b)) bs"


text \<open>Concrete inputs: a Unicode database with no digits beyond ASCII, and a world
  whose child has handle 7, whose mail relay accepts every step and whose child exits
  by itself.\<close>

definition U0 :: unicode where
  "U0 = \<lparr>decimal = (\<lambda>c. False), digit = (\<lambda>c. False)\<rparr>"

definition world0 :: "tick list \<Rightarrow> world" where
  "world0 ts = \<lparr>spawn = Inr 7, ticks = ts, smtp = (\<lambda>s. None), wait = WaitReturns,
     rerun = WaitReturns\<rparr>"

section \<open>Effects\<close>

lemma fst_emit [simp]: "fst (emit out r) = out @ fst r"
  by (simp add: emit_def)

lemma snd_emit [simp]: "snd (emit out r) = snd r"
  by (simp add: emit_def)

lemma emit_emit: "emit a (emit b r) = emit (a @ b) r"
  by (simp add: emit_def)

lemma emit_pair: "emit a (b, r) = (a @ b, r)"
  by (simp add: emit_def)

lemma on_byte_quiet: "filter terminates (fst (on_byte U pr st b)) = []"
  by (simp add: on_byte_def Let_def split: option.splits)

lemma try_body_quiet: "filter terminates (fst (try_body U t st)) = []"
  by (simp add: try_body_def on_byte_quiet split: read_result.splits)

lemma scan_loop_quiet: "filter terminates (fst (scan_loop U st ts)) = []"
proof (induction ts arbitrary: st)
  case Nil
  show ?case by simp
next
  case (Cons t ts)
  show ?case
    using try_body_quiet [of U t st] Cons.IH
    by (auto split: prod.splits sum.splits option.splits)
qed

lemma fallback_quiet: "filter terminates (fst (fallback U st)) = []"
  by (simp add: fallback_def Let_def)

lemma capture_quiet: "filter terminates (fst (capture_bore_url U w)) = []"
  using scan_loop_quiet [of U init "ticks w"] fallback_quiet
  by (auto simp: capture_bore_url_def split: sum.splits prod.splits loop_exit.splits)

lemma capture_handle:
  "snd (capture_bore_url U w) = Returns (url, p) \<Longrightarrow> spawn w = Inr p"
  by (auto simp: capture_bore_url_def split: sum.splits prod.splits loop_exit.splits)

text \<open>What \<^verbatim>\<open>capture_bore_url\<close> gives, by the way the loop ends.\<close>

lemma capture_by_exit:
  assumes "spawn w = Inr p"
  shows "snd (capture_bore_url U w) =
    (case snd (scan_loop U init (ticks w)) of
       FastPath u \<Rightarrow> Returns (Some u, p)
     | Expired st \<Rightarrow> Returns (snd (fallback U st), p)
     | Blocked \<Rightarrow> Hangs
     | Escaped x \<Rightarrow> Raises x)"
proof -
  obtain out r where sl: "scan_loop U init (ticks w) = (out, r)"
    by (cases "scan_loop U init (ticks w)")
  show ?thesis
    by (cases r) (simp_all add: capture_bore_url_def assms sl)
qed

lemma smtp_steps_quiet: "filter terminates (fst (smtp_steps env ss)) = []"
  by (induction ss) (auto split: option.splits)

lemma smtp_session_quiet: "filter terminates (fst (smtp_session env)) = []"
  using smtp_steps_quiet [of env "[Starttls, Login, SendMessage]"]
  by (cases "env Connect") (simp_all add: smtp_session_def)

lemma send_email_quiet: "filter terminates (fst (send_email w u)) = []"
proof -
  obtain out r where s: "smtp_session (smtp w) = (out, r)"
    by (cases "smtp_session (smtp w)")
  have "filter terminates out = []"
    using smtp_session_quiet [of "smtp w"] unfolding s by simp
  then show ?thesis
    unfolding send_email_def s by (cases r) simp_all
qed

section \<open>URLs\<close>

lemma fast_url_nonempty: "fast_url p \<noteq> []"
  by (simp add: fast_url_def asc_def)

lemma fallback_url_nonempty: "fallback_url p \<noteq> []"
  by (simp add: fallback_url_def asc_def)

lemma on_byte_url:
  "snd (snd (on_byte U pr st b)) = Inr (Some u) \<Longrightarrow>
     u = fast_url (port_digits st) \<and> 4 \<le> length (port_digits st)"
  by (auto simp: on_byte_def Let_def split: if_splits option.splits)

lemma try_body_url:
  "snd (snd (try_body U t st)) = Inr (Some u) \<Longrightarrow>
     u = fast_url (port_digits st) \<and> 4 \<le> length (port_digits st)"
  using on_byte_url [of U "print_raises t" st _ u]
  by (auto simp: try_body_def split: read_result.splits)

lemma scan_loop_url_nonempty: "snd (scan_loop U st ts) = FastPath u \<Longrightarrow> u \<noteq> []"
proof (induction ts arbitrary: st)
  case Nil
  then show ?case by simp
next
  case (Cons t ts)
  then show ?case
    using try_body_url [of U t st] fast_url_nonempty
    by (auto split: prod.splits sum.splits option.splits if_splits)
qed

lemma fallback_nonempty: "snd (fallback U st) = Some u \<Longrightarrow> u \<noteq> []"
  by (auto simp: fallback_def Let_def fallback_url_nonempty split: option.splits)

lemma capture_url_nonempty:
  "snd (capture_bore_url U w) = Returns (Some u, p) \<Longrightarrow> u \<noteq> []"
  using scan_loop_url_nonempty [of U init "ticks w" u] fallback_nonempty [of U _ u]
  by (auto simp: capture_bore_url_def split: sum.splits prod.splits loop_exit.splits)

section \<open>The main program, when a URL was captured\<close>

lemma main_captured:
  assumes "snd (capture_bore_url U w) = Returns (Some u, p)"
  shows "main U w =
    emit (fst (capture_bore_url U w) @ [Print Rule, Print (Success u), Print Rule])
      (case send_email w u of
         (out2, Raises x) \<Rightarrow> (out2, Raises x)
       | (out2, Hangs) \<Rightarrow> (out2, Hangs)
       | (out2, Returns sent) \<Rightarrow>
           emit (out2 @ [Print (if sent then EmailOk else EmailFailedUrlShown)])
             (wait_phase w p))"
proof -
  have ne: "u \<noteq> []" using assms by (rule capture_url_nonempty)
  obtain out where c: "capture_bore_url U w = (out, Returns (Some u, p))"
    using assms by (cases "capture_bore_url U w") simp
  show ?thesis
    by (simp add: main_def c ne emit_emit)
qed

lemma main_captured_sent:
  assumes "snd (capture_bore_url U w) = Returns (Some u, p)"
    and "snd (send_email w u) = Returns sent"
  shows "main U w =
    emit (fst (capture_bore_url U w) @ [Print Rule, Print (Success u), Print Rule]
            @ fst (send_email w u) @ [Print (if sent then EmailOk else EmailFailedUrlShown)])
      (wait_phase w p)"
proof -
  obtain out2 where s: "send_email w u = (out2, Returns sent)"
    using assms(2) by (cases "send_email w u") simp
  show ?thesis
    by (simp add: main_captured [OF assms(1)] s emit_emit)
qed

section \<open>The decoder\<close>

lemma utf8_step_ascii: "b < 128 \<Longrightarrow> utf8_step b bs = ([b], 0)"
  by (simp add: utf8_step_def)

lemma utf8_step_Nil: "utf8_step b [] = (if b < 128 then [b] else [], 0)"
  by (simp add: utf8_step_def utf8_two_def utf8_three_def utf8_four_def)

lemma decode_Nil [simp]: "decode [] = []"
  by (simp add: decode_def)

lemma decode_ascii: "of_char c < (128::nat) \<Longrightarrow> decode (c # cs) = of_char c # decode cs"
  by (simp add: decode_def utf8_step_ascii)

lemma decode_single: "decode [b] = (if of_char b < (128::nat) then [of_char b] else [])"
  by (simp add: decode_def utf8_step_Nil)

text \<open>More data after a lead byte changes its step only where the data was cut off
  inside the sequence, and then nothing had been decoded and all of it was consumed.\<close>

lemma utf8_two_more:
  "utf8_two b (bs @ ys) = utf8_two b bs \<or> utf8_two b bs = ([], length bs)"
  by (cases bs) (simp_all add: utf8_two_def)

lemma utf8_three_more:
  "utf8_three b (bs @ ys) = utf8_three b bs \<or> utf8_three b bs = ([], length bs)"
proof (cases bs)
  case Nil
  then show ?thesis by (simp add: utf8_three_def)
next
  case (Cons b2 r2)
  then show ?thesis by (cases r2) (simp_all add: utf8_three_def)
qed

lemma utf8_four_more:
  "utf8_four b (bs @ ys) = utf8_four b bs \<or> utf8_four b bs = ([], length bs)"
proof (cases bs)
  case Nil
  then show ?thesis by (simp add: utf8_four_def)
next
  case b2: (Cons b2 r2)
  show ?thesis
  proof (cases r2)
    case Nil
    with b2 show ?thesis by (simp add: utf8_four_def)
  next
    case (Cons b3 r3)
    with b2 show ?thesis by (cases r3) (simp_all add: utf8_four_def)
  qed
qed

lemma utf8_step_more:
  "utf8_step b (bs @ ys) = utf8_step b bs \<or> utf8_step b bs = ([], length bs)"
  using utf8_two_more [of b bs ys] utf8_three_more [of b bs ys] utf8_four_more [of b bs ys]
  by (simp add: utf8_step_def)

lemma utf8_two_le: "snd (utf8_two b bs) \<le> length bs"
  by (cases bs) (simp_all add: utf8_two_def)

lemma utf8_three_le: "snd (utf8_three b bs) \<le> length bs"
proof (cases bs)
  case Nil
  then show ?thesis by (simp add: utf8_three_def)
next
  case (Cons b2 r2)
  then show ?thesis by (cases r2) (simp_all add: utf8_three_def)
qed

lemma utf8_four_le: "snd (utf8_four b bs) \<le> length bs"
proof (cases bs)
  case Nil
  then show ?thesis by (simp add: utf8_four_def)
next
  case b2: (Cons b2 r2)
  show ?thesis
  proof (cases r2)
    case Nil
    with b2 show ?thesis by (simp add: utf8_four_def)
  next
    case (Cons b3 r3)
    with b2 show ?thesis by (cases r3) (simp_all add: utf8_four_def)
  qed
qed

lemma utf8_step_le: "snd (utf8_step b bs) \<le> length bs"
  using utf8_two_le [of b bs] utf8_three_le [of b bs] utf8_four_le [of b bs]
  by (simp add: utf8_step_def)

lemma utf8_ignore_prefix: "prefix (utf8_ignore xs) (utf8_ignore (xs @ ys))"
proof (induction xs rule: utf8_ignore.induct)
  case 1
  show ?case by simp
next
  case (2 b bs)
  from utf8_step_more [of b bs ys] show ?case
  proof
    assume same: "utf8_step b (bs @ ys) = utf8_step b bs"
    have "drop (snd (utf8_step b bs)) (bs @ ys) = drop (snd (utf8_step b bs)) bs @ ys"
      using utf8_step_le [of b bs] by simp
    with same "2.IH" show ?thesis by simp
  next
    assume "utf8_step b bs = ([], length bs)"
    then show ?thesis by simp
  qed
qed

lemma decode_prefix: "prefix (decode xs) (decode (xs @ ys))"
  by (simp add: decode_def utf8_ignore_prefix)

lemma sublist_decode_mono:
  "sublist m (decode xs) \<Longrightarrow> sublist m (decode (xs @ ys))"
proof -
  assume "sublist m (decode xs)"
  then obtain ps ss where "decode xs = ps @ m @ ss"
    by (auto simp: sublist_def)
  moreover obtain zs where "decode (xs @ ys) = decode xs @ zs"
    using decode_prefix [of xs ys] by (auto simp: prefix_def)
  ultimately have "decode (xs @ ys) = ps @ m @ (ss @ zs)"
    by simp
  then show ?thesis
    unfolding sublist_def by blast
qed

section \<open>One byte\<close>

lemma isdigit_decode_single: "isdigit U (decode [b]) = digit_byte b"
  by (auto simp: isdigit_def decode_single digit_byte_def ascii_digit_def)

lemma decode_digit_byte: "digit_byte b \<Longrightarrow> decode [b] = [of_char b]"
  by (auto simp: decode_single digit_byte_def ascii_digit_def)

lemma isdigit_single: "isdigit U [c] = (if c < 128 then ascii_digit c else digit U c)"
  by (simp add: isdigit_def)

lemma step_byte_url:
  "snd (snd (step_byte U st b)) = Some u \<Longrightarrow>
     u = fast_url (port_digits st) \<and> 4 \<le> length (port_digits st)"
  using on_byte_url [of U None st b u]
  by (simp add: step_byte_def split: sum.splits)

lemma step_byte_miss:
  "\<not> found_bore_pub st \<Longrightarrow> \<not> sublist marker (decode (output' st @ [b])) \<Longrightarrow>
   step_byte U st b = ([], st\<lparr>output' := output' st @ [b]\<rparr>, None)"
  by (simp add: step_byte_def on_byte_def Let_def)

lemma step_byte_hit:
  "\<not> found_bore_pub st \<Longrightarrow> sublist marker (decode (output' st @ [b])) \<Longrightarrow>
   step_byte U st b =
     ([Print FoundMarker], st\<lparr>output' := output' st @ [b], found_bore_pub := True\<rparr>, None)"
  by (simp add: step_byte_def on_byte_def Let_def)

lemma step_byte_digit:
  "found_bore_pub st \<Longrightarrow> digit_byte b \<Longrightarrow>
   step_byte U st b =
     ([], st\<lparr>output' := output' st @ [b], port_digits := port_digits st @ [of_char b]\<rparr>, None)"
  by (simp add: step_byte_def on_byte_def Let_def decode_single isdigit_single digit_byte_def ascii_digit_def)

lemma step_byte_short:
  "found_bore_pub st \<Longrightarrow> \<not> digit_byte b \<Longrightarrow> length (port_digits st) < 4 \<Longrightarrow>
   step_byte U st b = ([], st\<lparr>output' := output' st @ [b]\<rparr>, None)"
  by (simp add: step_byte_def on_byte_def Let_def isdigit_decode_single)

lemma step_byte_stop:
  "found_bore_pub st \<Longrightarrow> \<not> digit_byte b \<Longrightarrow> 4 \<le> length (port_digits st) \<Longrightarrow>
   step_byte U st b =
     ([Print (CapturedPort (port_digits st))], st\<lparr>output' := output' st @ [b]\<rparr>,
      Some (fast_url (port_digits st)))"
  by (auto simp: step_byte_def on_byte_def Let_def isdigit_decode_single)

lemma step_byte_output: "output' (fst (snd (step_byte U st b))) = output' st @ [b]"
  by (simp add: step_byte_def on_byte_def Let_def)

lemma step_byte_found: "found_bore_pub st \<Longrightarrow> found_bore_pub (fst (snd (step_byte U st b)))"
  by (simp add: step_byte_def on_byte_def Let_def)

lemma step_byte_digits_ok:
  "list_all ascii_digit (port_digits st) \<Longrightarrow>
   list_all ascii_digit (port_digits (fst (snd (step_byte U st b))))"
  by (auto simp: step_byte_def on_byte_def Let_def decode_single isdigit_single isdigit_def)

section \<open>A run of bytes\<close>

lemma feed_append:
  "feed U st (xs @ ys) =
     (case snd (feed U st xs) of
        Some u \<Rightarrow> feed U st xs
      | None \<Rightarrow> feed U (fst (feed U st xs)) ys)"
  by (induction xs arbitrary: st) (simp_all split: option.splits)

lemma feed_output: "snd (feed U st bs) = None \<Longrightarrow> output' (fst (feed U st bs)) = output' st @ bs"
  by (induction bs arbitrary: st) (auto simp: step_byte_output split: option.splits)

lemma feed_digits_ok:
  "list_all ascii_digit (port_digits st) \<Longrightarrow>
   list_all ascii_digit (port_digits (fst (feed U st bs)))"
  by (induction bs arbitrary: st) (auto simp: step_byte_digits_ok split: option.splits)

lemma feed_url:
  "snd (feed U st bs) = Some u \<Longrightarrow> list_all ascii_digit (port_digits st) \<Longrightarrow>
   \<exists>p. u = fast_url p \<and> 4 \<le> length p \<and> list_all ascii_digit p"
proof (induction bs arbitrary: st)
  case Nil
  then show ?case by simp
next
  case (Cons b bs)
  show ?case
  proof (cases "snd (snd (step_byte U st b))")
    case None
    with Cons.prems(1) have "snd (feed U (fst (snd (step_byte U st b))) bs) = Some u"
      by simp
    then show ?thesis
      using Cons.prems(2) Cons.IH [of "fst (snd (step_byte U st b))"]
      by (simp add: step_byte_digits_ok)
  next
    case (Some v)
    with Cons.prems(1) have "v = u" by simp
    with Some step_byte_url [of U st b u] Cons.prems(2) show ?thesis by blast
  qed
qed

lemma feed_nomarker:
  "\<not> found_bore_pub st \<Longrightarrow> \<not> sublist marker (decode (output' st @ bs)) \<Longrightarrow>
   feed U st bs = (st\<lparr>output' := output' st @ bs\<rparr>, None)"
proof (induction bs arbitrary: st)
  case Nil
  then show ?case by simp
next
  case (Cons b bs)
  have miss: "\<not> sublist marker (decode (output' st @ [b]))"
    using Cons.prems(2) sublist_decode_mono [of marker "output' st @ [b]" bs] by auto
  have step: "step_byte U st b = ([], st\<lparr>output' := output' st @ [b]\<rparr>, None)"
    using Cons.prems(1) miss by (rule step_byte_miss)
  have "feed U (st\<lparr>output' := output' st @ [b]\<rparr>) bs
      = (st\<lparr>output' := output' st @ [b]\<rparr>\<lparr>output' :=
           output' (st\<lparr>output' := output' st @ [b]\<rparr>) @ bs\<rparr>, None)"
    using Cons.prems by (intro Cons.IH) simp_all
  then show ?case by (simp add: step)
qed

lemma feed_search:
  assumes "\<not> found_bore_pub st"
    and "sublist marker (decode (output' st @ pre))"
    and "\<not> sublist marker (decode (output' st @ butlast pre))"
  shows "feed U st pre = (st\<lparr>output' := output' st @ pre, found_bore_pub := True\<rparr>, None)"
proof -
  have ne: "pre \<noteq> []" using assms(2,3) by auto
  then have split: "pre = butlast pre @ [last pre]" by simp
  let ?mid = "st\<lparr>output' := output' st @ butlast pre\<rparr>"
  have first: "feed U st (butlast pre) = (?mid, None)"
    using assms(1,3) by (rule feed_nomarker)
  have hit: "sublist marker (decode (output' ?mid @ [last pre]))"
    using assms(2) ne by (simp flip: append_assoc) (simp add: append_assoc)
  have "step_byte U ?mid (last pre) =
      ([Print FoundMarker], ?mid\<lparr>output' := output' ?mid @ [last pre], found_bore_pub := True\<rparr>, None)"
    using assms(1) hit by (intro step_byte_hit) simp_all
  then have last: "feed U ?mid [last pre] =
      (?mid\<lparr>output' := output' ?mid @ [last pre], found_bore_pub := True\<rparr>, None)"
    by simp
  have "feed U st pre = feed U st (butlast pre @ [last pre])"
    using split by simp
  also have "\<dots> = feed U ?mid [last pre]"
    unfolding feed_append first by simp
  also have "\<dots> = (st\<lparr>output' := output' st @ pre, found_bore_pub := True\<rparr>, None)"
    unfolding last using ne by simp
  finally show ?thesis .
qed

lemma feed_digits:
  "found_bore_pub st \<Longrightarrow> list_all digit_byte ds \<Longrightarrow>
   feed U st ds =
     (st\<lparr>output' := output' st @ ds, port_digits := port_digits st @ asc ds\<rparr>, None)"
proof (induction ds arbitrary: st)
  case Nil
  then show ?case by (simp add: asc_def)
next
  case (Cons d ds)
  let ?st = "st\<lparr>output' := output' st @ [d], port_digits := port_digits st @ [of_char d]\<rparr>"
  have step: "step_byte U st d = ([], ?st, None)"
    using Cons.prems by (intro step_byte_digit) simp_all
  have "feed U ?st ds = (?st\<lparr>output' := output' ?st @ ds, port_digits := port_digits ?st @ asc ds\<rparr>, None)"
    using Cons.prems by (intro Cons.IH) simp_all
  then show ?case by (simp add: step asc_def)
qed

lemma feed_noise:
  "found_bore_pub st \<Longrightarrow> list_all (\<lambda>b. \<not> digit_byte b) ns \<Longrightarrow> length (port_digits st) < 4 \<Longrightarrow>
   feed U st ns = (st\<lparr>output' := output' st @ ns\<rparr>, None)"
proof (induction ns arbitrary: st)
  case Nil
  then show ?case by simp
next
  case (Cons n ns)
  let ?st = "st\<lparr>output' := output' st @ [n]\<rparr>"
  have step: "step_byte U st n = ([], ?st, None)"
    using Cons.prems by (intro step_byte_short) simp_all
  have "feed U ?st ns = (?st\<lparr>output' := output' ?st @ ns\<rparr>, None)"
    using Cons.prems by (intro Cons.IH) simp_all
  then show ?case by (simp add: step)
qed

lemma feed_stop:
  "found_bore_pub st \<Longrightarrow> \<not> digit_byte c \<Longrightarrow> 4 \<le> length (port_digits st) \<Longrightarrow>
   snd (feed U st (c # rest)) = Some (fast_url (port_digits st))"
  by (simp add: step_byte_stop)

section \<open>The loop and the run of bytes it reads\<close>

lemma test_Tick [simp]: "test (Tick e r) = Inr e"
  by (simp add: Tick_def)

lemma result_Tick [simp]: "result (Tick e r) = r"
  by (simp add: Tick_def)

lemma print_raises_Tick [simp]: "print_raises (Tick e r) = None"
  by (simp add: Tick_def)

lemma sleep_raises_Tick [simp]: "sleep_raises (Tick e r) = None"
  by (simp add: Tick_def)

lemma live_Tick [simp]: "live (Tick e r) = (e < 15)"
  by (simp add: Tick_def live_def)

lemma guarded_Tick [simp]: "guarded (Tick e r)"
  by (simp add: Tick_def guarded_def)

lemma live_test: "live t \<Longrightarrow> \<exists>e. test t = Inr e \<and> e < 15"
  by (cases "test t") (simp_all add: live_def)

lemma on_byte_None:
  "on_byte U None st b =
     (fst (step_byte U st b), fst (snd (step_byte U st b)), Inr (snd (snd (step_byte U st b))))"
  by (simp add: step_byte_def on_byte_def Let_def)

lemma scan_loop_live_step:
  assumes "live t"
  shows "snd (scan_loop U st (t # ts)) =
     (case result t of
        Byte b \<Rightarrow> (case snd (snd (step_byte U st b)) of
                     Some u \<Rightarrow> FastPath u
                   | None \<Rightarrow> snd (scan_loop U (fst (snd (step_byte U st b))) ts))
      | Eof \<Rightarrow> snd (scan_loop U st ts)
      | ReadRaises x \<Rightarrow> snd (scan_loop U st ts))"
proof -
  obtain e where e: "test t = Inr e" "e < 15"
    using live_test [OF assms] by blast
  have pr: "print_raises t = None" and sl: "sleep_raises t = None"
    using assms by (simp_all add: live_def)
  show ?thesis
  proof (cases "result t")
    case (Byte b)
    obtain out st' r where ob: "step_byte U st b = (out, st', r)"
      by (cases "step_byte U st b")
    have "try_body U t st = (out, st', Inr r)"
      by (simp add: try_body_def Byte pr on_byte_None ob)
    then show ?thesis
      by (cases r) (simp_all add: e Byte ob)
  next
    case Eof
    then show ?thesis
      by (simp add: e try_body_def)
  next
    case (ReadRaises x)
    then show ?thesis
      by (simp add: e sl try_body_def)
  qed
qed

text \<open>Over live ticks the loop is the state machine fed with their bytes.\<close>

lemma scan_loop_live_prefix:
  "list_all live ts \<Longrightarrow>
   snd (scan_loop U st (ts @ rest)) =
     (case snd (feed U st (bytes_of ts)) of
        Some u \<Rightarrow> FastPath u
      | None \<Rightarrow> snd (scan_loop U (fst (feed U st (bytes_of ts))) rest))"
proof (induction ts arbitrary: st)
  case Nil
  show ?case by simp
next
  case (Cons t ts)
  then have lt: "live t" and lts: "list_all live ts"
    by simp_all
  have step: "snd (scan_loop U st ((t # ts) @ rest)) =
     (case result t of
        Byte b \<Rightarrow> (case snd (snd (step_byte U st b)) of
                     Some u \<Rightarrow> FastPath u
                   | None \<Rightarrow> snd (scan_loop U (fst (snd (step_byte U st b))) (ts @ rest)))
      | Eof \<Rightarrow> snd (scan_loop U st (ts @ rest))
      | ReadRaises x \<Rightarrow> snd (scan_loop U st (ts @ rest)))"
    using scan_loop_live_step [OF lt, of U st "ts @ rest"] by simp
  show ?case
  proof (cases "result t")
    case (Byte b)
    have bt: "bytes_of (t # ts) = b # bytes_of ts"
      using Byte by simp
    show ?thesis
      unfolding step bt
      using Byte Cons.IH [OF lts, of "fst (snd (step_byte U st b))"]
      by (simp split: option.splits)
  next
    case Eof
    have bt: "bytes_of (t # ts) = bytes_of ts"
      using Eof by simp
    show ?thesis
      unfolding step bt using Eof Cons.IH [OF lts, of st] by simp
  next
    case (ReadRaises x)
    have bt: "bytes_of (t # ts) = bytes_of ts"
      using ReadRaises by simp
    show ?thesis
      unfolding step bt using ReadRaises Cons.IH [OF lts, of st] by simp
  qed
qed

lemma scan_loop_past_budget:
  "test t = Inr e \<Longrightarrow> \<not> e < 15 \<Longrightarrow> scan_loop U st (t # ts) = ([], Expired st)"
  by simp

text \<open>Bytes and liveness of composed tick lists.\<close>

lemma bytes_of_append: "bytes_of (ts @ us) = bytes_of ts @ bytes_of us"
  by (induction ts) (simp_all split: read_result.splits)

section \<open>Streams that arrive in time\<close>

lemma bytes_of_arrive: "bytes_of (arrive e bs) = bs"
  by (induction bs) (simp_all add: arrive_def)

lemma live_arrive: "e < 15 \<Longrightarrow> list_all live (arrive e bs)"
  by (induction bs) (simp_all add: arrive_def)

lemma capture_fast:
  assumes "spawn w = Inr p" and "ticks w = ts @ rest" and "list_all live ts"
    and "snd (feed U init (bytes_of ts)) = Some u"
  shows "snd (capture_bore_url U w) = Returns (Some u, p)"
proof -
  have "snd (scan_loop U init (ticks w)) = FastPath u"
    unfolding assms(2) scan_loop_live_prefix [OF assms(3)] using assms(4) by simp
  then show ?thesis
    by (simp add: capture_by_exit [OF assms(1)])
qed

text \<open>The state machine from the start of the stream up to the byte that ends a port:
  the marker is completed by the last byte of \<open>pre\<close>; then come a first run of fewer than
  four digits (possibly none), bytes that are no digits, a second run of digits, and a
  byte that is no digit.\<close>

lemma feed_runs:
  assumes hit: "sublist marker (decode pre)"
    and first: "\<not> sublist marker (decode (butlast pre))"
    and ds: "list_all digit_byte ds" "length ds < 4"
    and ns: "list_all (\<lambda>b. \<not> digit_byte b) ns"
    and ds2: "list_all digit_byte ds2" "4 \<le> length ds + length ds2"
    and c: "\<not> digit_byte c"
  shows "snd (feed U init (pre @ ds @ ns @ ds2 @ c # rest)) = Some (fast_url (asc (ds @ ds2)))"
proof -
  let ?s1 = "init\<lparr>output' := output' init @ pre, found_bore_pub := True\<rparr>"
  let ?s2 = "?s1\<lparr>output' := output' ?s1 @ ds, port_digits := port_digits ?s1 @ asc ds\<rparr>"
  let ?s3 = "?s2\<lparr>output' := output' ?s2 @ ns\<rparr>"
  let ?s4 = "?s3\<lparr>output' := output' ?s3 @ ds2, port_digits := port_digits ?s3 @ asc ds2\<rparr>"
  have f1: "feed U init pre = (?s1, None)"
    using hit first by (intro feed_search) (simp_all add: init_def)
  have f2: "feed U ?s1 ds = (?s2, None)"
    using ds(1) by (intro feed_digits) simp_all
  have f3: "feed U ?s2 ns = (?s3, None)"
    using ns ds(2) by (intro feed_noise) (simp_all add: init_def asc_def)
  have f4: "feed U ?s3 ds2 = (?s4, None)"
    using ds2(1) by (intro feed_digits) simp_all
  have pd: "port_digits ?s4 = asc (ds @ ds2)"
    by (simp add: init_def asc_def)
  have f5: "snd (feed U ?s4 (c # rest)) = Some (fast_url (port_digits ?s4))"
    using c ds2(2) by (intro feed_stop) (simp_all add: init_def asc_def)
  have eq: "feed U init (pre @ ds @ ns @ ds2 @ c # rest) = feed U ?s4 (c # rest)"
    by (simp only: feed_append f1 f2 f3 f4 snd_conv fst_conv option.case)
  show ?thesis
    unfolding eq f5 pd by (rule refl)
qed

lemma scan_loop_append:
  assumes "list_all live ts" and "snd (feed U st (bytes_of ts)) = None"
  shows "snd (scan_loop U st (ts @ us)) =
         snd (scan_loop U (fst (feed U st (bytes_of ts))) us)"
  unfolding scan_loop_live_prefix [OF assms(1)] using assms(2) by simp



section \<open>The fast path\<close>

lemma marker_at_start: "sublist marker (decode ''bore.pub:'')"
  by (simp add: marker_def asc_def decode_ascii sublist_Cons_right)

lemma marker_not_before: "\<not> sublist marker (decode (butlast ''bore.pub:''))"
  by (simp add: marker_def asc_def decode_ascii sublist_Cons_right)

section \<open>The regular expression\<close>


lemma strip_prefix_iff: "strip_prefix p s = Some r \<longleftrightarrow> s = p @ r"
  by (induction p s rule: strip_prefix.induct) auto


lemma takeWhile_take: "takeWhile P (take n xs) = take n (takeWhile P xs)"
proof (induction xs arbitrary: n)
  case Nil
  show ?case by simp
next
  case (Cons x xs)
  then show ?case by (cases n) simp_all
qed

lemma re_match_at_append:
  "re_match_at U (marker @ r) =
     (if 4 \<le> length (takeWhile (re_digit U) r)
      then Some (take 5 (takeWhile (re_digit U) r)) else None)"
proof -
  have "strip_prefix marker (marker @ r) = Some r"
    by (simp add: strip_prefix_iff)
  then show ?thesis
    by (simp add: re_match_at_def Let_def takeWhile_take)
qed



lemma re_match_at_Some:
  assumes "re_match_at U s = Some g"
  shows "\<exists>r. s = marker @ g @ r" and "4 \<le> length g" and "length g \<le> 5"
    and "list_all (re_digit U) g"
proof -
  from assms have "strip_prefix marker s \<noteq> None"
    by (auto simp: re_match_at_def split: option.splits)
  then obtain r where s: "s = marker @ r"
    by (auto simp: strip_prefix_iff)
  from assms have g: "g = take 5 (takeWhile (re_digit U) r)"
    and len: "4 \<le> length (takeWhile (re_digit U) r)"
    unfolding s re_match_at_append by (auto split: if_splits)
  show "4 \<le> length g" "length g \<le> 5"
    using len by (simp_all add: g)
  have "set g \<subseteq> set (takeWhile (re_digit U) r)"
    unfolding g by (rule set_take_subset)
  then show "list_all (re_digit U) g"
    by (auto simp: list_all_iff dest: set_takeWhileD)
  have "r = takeWhile (re_digit U) r @ dropWhile (re_digit U) r"
    by simp
  also have "takeWhile (re_digit U) r = g @ drop 5 (takeWhile (re_digit U) r)"
    by (simp add: g)
  finally have "r = g @ (drop 5 (takeWhile (re_digit U) r) @ dropWhile (re_digit U) r)"
    by simp
  then show "\<exists>r. s = marker @ g @ r"
    unfolding s by blast
qed

lemma re_search_Some:
  assumes "re_search U s = Some g"
  shows "\<exists>pre r. s = pre @ marker @ g @ r" and "4 \<le> length g \<and> length g \<le> 5"
    and "list_all (re_digit U) g"
  using assms
proof (induction s)
  case Nil
  {
    case 1 then show ?case using re_match_at_Some(1) [of U "[]" g] by auto
  next
    case 2 then show ?case using re_match_at_Some(2,3) [of U "[]" g] by auto
  next
    case 3 then show ?case using re_match_at_Some(4) [of U "[]" g] by auto
  }
next
  case (Cons c cs)
  {
    case 1
    show ?case
    proof (cases "re_match_at U (c # cs)")
      case None
      with 1 have "re_search U cs = Some g" by simp
      then obtain pre r where "cs = pre @ marker @ g @ r"
        using Cons.IH(1) by blast
      then have "c # cs = (c # pre) @ marker @ g @ r" by simp
      then show ?thesis by blast
    next
      case (Some h)
      with 1 have "re_match_at U (c # cs) = Some g" by simp
      then obtain r where "c # cs = [] @ marker @ g @ r"
        using re_match_at_Some(1) [of U "c # cs" g] by auto
      then show ?thesis by blast
    qed
  next
    case 2
    show ?case
    proof (cases "re_match_at U (c # cs)")
      case None
      with 2 have "re_search U cs = Some g" by simp
      then show ?thesis using Cons.IH(2) by blast
    next
      case (Some h)
      with 2 have "re_match_at U (c # cs) = Some g" by simp
      then show ?thesis using re_match_at_Some(2,3) [of U "c # cs" g] by auto
    qed
  next
    case 3
    show ?case
    proof (cases "re_match_at U (c # cs)")
      case None
      with 3 have "re_search U cs = Some g" by simp
      then show ?thesis using Cons.IH(3) by blast
    next
      case (Some h)
      with 3 have "re_match_at U (c # cs) = Some g" by simp
      then show ?thesis using re_match_at_Some(4) [of U "c # cs" g] by auto
    qed
  }
qed

lemma re_search_no_marker: "\<not> sublist marker s \<Longrightarrow> re_search U s = None"
proof (rule ccontr)
  assume no: "\<not> sublist marker s" and "re_search U s \<noteq> None"
  then obtain g where "re_search U s = Some g" by auto
  then obtain pre r where "s = pre @ marker @ (g @ r)"
    using re_search_Some(1) [of U s g] by auto
  then have "sublist marker s"
    unfolding sublist_def by blast
  with no show False by simp
qed



declare feed.simps [simp del] scan_loop.simps [simp del]

section \<open>The fallback\<close>


lemma fallback_no_marker:
  "\<not> sublist marker (decode (output' st)) \<Longrightarrow> snd (fallback U st) = None"
  by (simp add: fallback_def Let_def re_search_no_marker)

lemma capture_of_expired:
  assumes "spawn w = Inr p" and "snd (scan_loop U init (ticks w)) = Expired st"
  shows "snd (capture_bore_url U w) = Returns (snd (fallback U st), p)"
proof -
  obtain out where "scan_loop U init (ticks w) = (out, Expired st)"
    using assms(2) by (cases "scan_loop U init (ticks w)") simp
  then show ?thesis
    by (simp add: capture_bore_url_def assms(1))
qed

lemma scan_loop_expired:
  assumes "list_all live ts" and "test t = Inr e" and "\<not> e < 15"
    and "feed U st (bytes_of ts) = (st', None)"
  shows "snd (scan_loop U st (ts @ t # us)) = Expired st'"
  unfolding scan_loop_live_prefix [OF assms(1)] assms(4)
  by (simp add: scan_loop_past_budget [OF assms(2,3)])

text \<open>No marker in the bytes read before the budget elapsed: no URL.\<close>

lemma no_marker_no_url_at_expiry:
  assumes "spawn w = Inr p" and "ticks w = ts @ t # us" and "list_all live ts"
    and "test t = Inr e" and "\<not> e < 15"
    and "\<not> sublist marker (decode (bytes_of ts))"
  shows "snd (capture_bore_url U w) = Returns (None, p)"
proof -
  let ?st = "init\<lparr>output' := output' init @ bytes_of ts\<rparr>"
  have fd: "feed U init (bytes_of ts) = (?st, None)"
    using assms(6) by (intro feed_nomarker) (simp_all add: init_def)
  have ex: "snd (scan_loop U init (ticks w)) = Expired ?st"
    unfolding assms(2) using assms(3,4,5) fd by (rule scan_loop_expired)
  have "snd (fallback U ?st) = None"
    using assms(6) by (intro fallback_no_marker) (simp add: init_def)
  with capture_of_expired [OF assms(1) ex] show ?thesis by simp
qed



section \<open>Where the pattern matches\<close>




lemma ascii_digit_re_digit: "ascii_digit c \<Longrightarrow> re_digit U c"
  by (simp add: re_digit_def ascii_digit_def)

section \<open>Concrete runs\<close>

lemma digits_8080: "list_all digit_byte ''8080''"
  by (simp add: digit_byte_def ascii_digit_def)

lemma space_no_digit: "\<not> digit_byte CHR '' ''"
  by (simp add: digit_byte_def ascii_digit_def)

lemma example_fast:
  "snd (capture_bore_url U0 (world0 (arrive 0 ''bore.pub:8080 ''))) =
     Returns (Some (asc ''http://bore.pub:8080/opds/all''), 7)"
proof -
  have "snd (feed U0 init (''bore.pub:'' @ [] @ [] @ ''8080'' @ CHR '' '' # [])) =
      Some (fast_url (asc ([] @ ''8080'')))"
    by (rule feed_runs [OF marker_at_start marker_not_before _ _ _ digits_8080 _ space_no_digit])
      simp_all
  then have "snd (feed U0 init (bytes_of (arrive 0 ''bore.pub:8080 ''))) =
      Some (fast_url (asc ''8080''))"
    by (simp add: bytes_of_arrive)
  then have "snd (capture_bore_url U0 (world0 (arrive 0 ''bore.pub:8080 ''))) =
      Returns (Some (fast_url (asc ''8080'')), 7)"
    by (intro capture_fast [where ts = "arrive 0 ''bore.pub:8080 ''" and rest = "[]"])
      (simp_all add: world0_def live_arrive)
  then show ?thesis
    by (simp add: fast_url_def asc_def)
qed

lemma hello_no_marker: "\<not> sublist marker (decode ''hello'')"
  by (simp add: marker_def asc_def decode_ascii sublist_Cons_right)




section \<open>The mail steps\<close>

lemma smtp_session_None:
  "snd (smtp_session env) = None \<longleftrightarrow>
   list_all (\<lambda>s. env s = None) [Connect, Starttls, Login, SendMessage, Quit]"
  by (auto simp: smtp_session_def split: option.splits)


lemma send_email_ok:
  assumes "list_all (\<lambda>s. smtp w s = None) [Connect, Starttls, Login, SendMessage, Quit]"
  shows "snd (send_email w u) = Returns True"
proof -
  obtain out r where s: "smtp_session (smtp w) = (out, r)"
    by (cases "smtp_session (smtp w)")
  have "r = None"
    using smtp_session_None [of "smtp w"] assms unfolding s by simp
  then show ?thesis
    unfolding send_email_def s by simp
qed



section \<open>Exceptions in the loop\<close>

text \<open>The digits kept by the loop are ASCII digits, whatever raises.\<close>

lemma on_byte_digits_ok:
  "list_all ascii_digit (port_digits st) \<Longrightarrow>
   list_all ascii_digit (port_digits (fst (snd (on_byte U pr st b))))"
  by (auto simp: on_byte_def Let_def decode_single isdigit_single isdigit_def
      split: option.splits)

lemma try_body_digits_ok:
  "list_all ascii_digit (port_digits st) \<Longrightarrow>
   list_all ascii_digit (port_digits (fst (snd (try_body U t st))))"
  using on_byte_digits_ok [of st U "print_raises t"]
  by (auto simp: try_body_def split: read_result.splits)

lemma scan_loop_fast_form:
  "snd (scan_loop U st ts) = FastPath u \<Longrightarrow> list_all ascii_digit (port_digits st) \<Longrightarrow>
   \<exists>p. u = fast_url p \<and> 4 \<le> length p \<and> list_all ascii_digit p"
proof (induction ts arbitrary: st)
  case Nil
  then show ?case by (simp add: scan_loop.simps)
next
  case (Cons t ts)
  obtain out st' r where tb: "try_body U t st = (out, st', r)"
    by (cases "try_body U t st")
  have d': "list_all ascii_digit (port_digits st')"
    using try_body_digits_ok [OF Cons.prems(2), of U t] by (simp add: tb)
  have here: "r = Inr (Some u) \<Longrightarrow> u = fast_url (port_digits st) \<and> 4 \<le> length (port_digits st)"
    using try_body_url [of U t st u] by (simp add: tb)
  have "snd (scan_loop U st' ts) = FastPath u \<or> r = Inr (Some u)"
    using Cons.prems(1)
    by (auto simp: scan_loop.simps tb split: sum.splits option.splits if_splits)
  then show ?case
    using Cons.IH [OF _ d'] here Cons.prems(2) by blast
qed

text \<open>An exception leaves the loop only from a loop test or from the sleep of the
  handler.\<close>

lemma scan_loop_escape_origin:
  "snd (scan_loop U st ts) = Escaped x \<Longrightarrow>
   \<exists>t\<in>set ts. test t = Inl x \<or> sleep_raises t = Some x"
proof (induction ts arbitrary: st)
  case Nil
  then show ?case by (simp add: scan_loop.simps)
next
  case (Cons t ts)
  obtain out st' r where tb: "try_body U t st = (out, st', r)"
    by (cases "try_body U t st")
  have "snd (scan_loop U st' ts) = Escaped x \<or> test t = Inl x \<or> sleep_raises t = Some x"
    using Cons.prems
    by (auto simp: scan_loop.simps tb split: sum.splits option.splits if_splits)
  then show ?case
    using Cons.IH [of st'] by auto
qed

lemma scan_loop_guarded: "list_all guarded ts \<Longrightarrow> snd (scan_loop U st ts) \<noteq> Escaped x"
proof
  assume g: "list_all guarded ts" and "snd (scan_loop U st ts) = Escaped x"
  then obtain t where "t \<in> set ts" and "test t = Inl x \<or> sleep_raises t = Some x"
    using scan_loop_escape_origin by blast
  moreover have "guarded t"
    using g \<open>t \<in> set ts\<close> by (simp add: list_all_iff)
  ultimately show False
    by (auto simp: guarded_def)
qed

text \<open>One iteration whose read or print raises.\<close>

lemma scan_loop_read_raises:
  assumes "test t = Inr e" and "e < 15" and "result t = ReadRaises x"
    and "sleep_raises t = None"
  shows "scan_loop U st (t # ts) = emit [Sleep] (scan_loop U st ts)"
  using assms by (simp add: scan_loop.simps try_body_def)

lemma scan_loop_port_print_raises:
  assumes "test t = Inr e" and "e < 15" and "result t = Byte b"
    and "print_raises t = Some x" and "sleep_raises t = None"
    and "found_bore_pub st" and "\<not> isdigit U (decode [b])" and "4 \<le> length (port_digits st)"
  shows "scan_loop U st (t # ts) =
    emit [Sleep] (scan_loop U (st\<lparr>output' := output' st @ [b]\<rparr>) ts)"
proof -
  have "port_digits st \<noteq> []"
    using assms(8) by auto
  then have "try_body U t st = ([], st\<lparr>output' := output' st @ [b]\<rparr>, Inl x)"
    using assms(3,4,6,7,8) by (simp add: try_body_def on_byte_def Let_def)
  then show ?thesis
    using assms(1,2,5) by (simp add: scan_loop.simps)
qed

lemma scan_loop_marker_print_raises:
  assumes "test t = Inr e" and "e < 15" and "result t = Byte b"
    and "print_raises t = Some x"
    and "\<not> found_bore_pub st" and "sublist marker (decode (output' st @ [b]))"
  shows "scan_loop U st (t # ts) =
    scan_loop U (st\<lparr>output' := output' st @ [b], found_bore_pub := True\<rparr>) ts"
proof -
  have "try_body U t st =
      ([], st\<lparr>output' := output' st @ [b], found_bore_pub := True\<rparr>, Inr None)"
    using assms(3-6) by (simp add: try_body_def on_byte_def Let_def)
  then show ?thesis
    using assms(1,2) by (simp add: scan_loop.simps emit_def)
qed

section \<open>Concrete runs of the main program\<close>

lemma capture_ignores_wait: "capture_bore_url U (w\<lparr>wait := x\<rparr>) = capture_bore_url U w"
  by (cases "spawn w") (simp_all add: capture_bore_url_def)


section \<open>The claims\<close>









text \<open>
  C4. The claim has the scan loop end within the budget for every stream without the
  marker, as the comment \<^verbatim>\<open># 15 second timeout\<close> on the loop says. The code tests the
  clock only between reads, and \<^verbatim>\<open>process.stdout.read(1)\<close> waits without a deadline.
  The child prints \<^verbatim>\<open>hello\<close>, which holds no marker, and then stays silent with its
  output open: the sixth read never returns, no later loop test is made, and
  \<^verbatim>\<open>capture_bore_url\<close> does not return at all.
\<close>

theorem silent_child_never_returns:
  "\<not> sublist marker (decode ''hello'')
   \<and> snd (capture_bore_url U0 (world0 (arrive 0 ''hello''))) = Hangs"
proof (rule conjI [OF hello_no_marker])
  let ?w = "world0 (arrive 0 ''hello'')"
  have sp: "spawn ?w = Inr 7"
    by (simp add: world0_def)
  have fd: "feed U0 init ''hello'' = (init\<lparr>output' := output' init @ ''hello''\<rparr>, None)"
    by (rule feed_nomarker) (simp_all add: init_def hello_no_marker)
  have "snd (scan_loop U0 init (arrive 0 ''hello'' @ [])) =
      snd (scan_loop U0 (fst (feed U0 init (bytes_of (arrive 0 ''hello'')))) [])"
    by (rule scan_loop_append) (simp_all add: live_arrive bytes_of_arrive fd)
  then have "snd (scan_loop U0 init (ticks ?w)) = Blocked"
    by (simp add: world0_def scan_loop.simps)
  then show "snd (capture_bore_url U0 ?w) = Hangs"
    by (simp add: capture_by_exit [OF sp])
qed



text \<open>
  C6, as amended. Inside the \<^verbatim>\<open>try\<close> block of the loop every exception is swallowed.
  A read that raises, whatever it raises, costs one sleep and leaves the state as it
  was. A print of the captured port that raises costs one sleep too, and the function
  does not return there. A print of the marker message that raises is swallowed by the
  inner handler, with no sleep. In each case the loop goes on with the next test of the
  same clock. An exception leaves the loop only from a loop test or from the sleep of
  the handler, which stand outside the \<^verbatim>\<open>try\<close> block; when neither raises, the loop
  lets no exception out.
\<close>

theorem try_block_swallows_errors:
  "(test t = Inr e \<and> e < 15 \<and> result t = ReadRaises x \<and> sleep_raises t = None \<longrightarrow>
      scan_loop U st (t # ts) = emit [Sleep] (scan_loop U st ts))
   \<and> (test t = Inr e \<and> e < 15 \<and> result t = Byte b \<and> print_raises t = Some x \<and>
      sleep_raises t = None \<and> found_bore_pub st \<and> \<not> isdigit U (decode [b]) \<and>
      4 \<le> length (port_digits st) \<longrightarrow>
      scan_loop U st (t # ts) =
        emit [Sleep] (scan_loop U (st\<lparr>output' := output' st @ [b]\<rparr>) ts))
   \<and> (test t = Inr e \<and> e < 15 \<and> result t = Byte b \<and> print_raises t = Some x \<and>
      \<not> found_bore_pub st \<and> sublist marker (decode (output' st @ [b])) \<longrightarrow>
      scan_loop U st (t # ts) =
        scan_loop U (st\<lparr>output' := output' st @ [b], found_bore_pub := True\<rparr>) ts)
   \<and> (snd (scan_loop U st ts') = Escaped y \<longrightarrow>
      (\<exists>t'\<in>set ts'. test t' = Inl y \<or> sleep_raises t' = Some y))
   \<and> (list_all guarded ts' \<longrightarrow> (\<forall>z. snd (scan_loop U st ts') \<noteq> Escaped z))"
proof (intro conjI impI allI)
  assume "test t = Inr e \<and> e < 15 \<and> result t = ReadRaises x \<and> sleep_raises t = None"
  then show "scan_loop U st (t # ts) = emit [Sleep] (scan_loop U st ts)"
    by (intro scan_loop_read_raises [where e = e and x = x]) simp_all
next
  assume "test t = Inr e \<and> e < 15 \<and> result t = Byte b \<and> print_raises t = Some x \<and>
      sleep_raises t = None \<and> found_bore_pub st \<and> \<not> isdigit U (decode [b]) \<and>
      4 \<le> length (port_digits st)"
  then show "scan_loop U st (t # ts) =
      emit [Sleep] (scan_loop U (st\<lparr>output' := output' st @ [b]\<rparr>) ts)"
    by (intro scan_loop_port_print_raises [where e = e and x = x]) simp_all
next
  assume "test t = Inr e \<and> e < 15 \<and> result t = Byte b \<and> print_raises t = Some x \<and>
      \<not> found_bore_pub st \<and> sublist marker (decode (output' st @ [b]))"
  then show "scan_loop U st (t # ts) =
      scan_loop U (st\<lparr>output' := output' st @ [b], found_bore_pub := True\<rparr>) ts"
    by (intro scan_loop_marker_print_raises [where e = e and x = x]) simp_all
next
  assume "snd (scan_loop U st ts') = Escaped y"
  then show "\<exists>t'\<in>set ts'. test t' = Inl y \<or> sleep_raises t' = Some y"
    by (rule scan_loop_escape_origin)
next
  fix z
  assume "list_all guarded ts'"
  then show "snd (scan_loop U st ts') \<noteq> Escaped z"
    by (rule scan_loop_guarded)
qed

text \<open>
  A read interrupted from the keyboard, then the end of the budget: one sleep, and the
  loop ends on the budget. A print of the port \<^verbatim>\<open>8080\<close> that fails: one sleep, no return. A
  print of the marker message that fails: no sleep, the marker counts as found. A sleep
  interrupted from the keyboard: the interrupt leaves the loop, and it came from that
  sleep.
\<close>

theorem try_block_swallows_errors_witness:
  "scan_loop U0 init [Tick 0 (ReadRaises KeyboardInterrupt), Tick 15 Eof] =
     ([Sleep], Expired init)
   \<and> scan_loop U0
       \<lparr>output' = ''bore.pub:8080'', found_bore_pub = True, port_digits = asc ''8080''\<rparr>
       [Iteration (Inr 0) (Byte CHR '' '') (Some OSError) None, Tick 15 Eof] =
     ([Sleep], Expired
       \<lparr>output' = ''bore.pub:8080 '', found_bore_pub = True, port_digits = asc ''8080''\<rparr>)
   \<and> scan_loop U0 \<lparr>output' = ''bore.pub'', found_bore_pub = False, port_digits = []\<rparr>
       [Iteration (Inr 0) (Byte CHR '':'') (Some OSError) None, Tick 15 Eof] =
     ([], Expired \<lparr>output' = ''bore.pub:'', found_bore_pub = True, port_digits = []\<rparr>)
   \<and> snd (scan_loop U0 init
            [Iteration (Inr 0) (ReadRaises OSError) None (Some KeyboardInterrupt)]) =
       Escaped KeyboardInterrupt
   \<and> (\<exists>t'\<in>set [Iteration (Inr 0) (ReadRaises OSError) None (Some KeyboardInterrupt)].
         test t' = Inl KeyboardInterrupt \<or> sleep_raises t' = Some KeyboardInterrupt)
   \<and> list_all guarded [Tick 0 (ReadRaises KeyboardInterrupt), Tick 15 Eof]
   \<and> snd (scan_loop U0 init [Tick 0 (ReadRaises KeyboardInterrupt), Tick 15 Eof]) \<noteq>
       Escaped KeyboardInterrupt"
proof -
  let ?s2 = "\<lparr>output' = ''bore.pub:8080'', found_bore_pub = True, port_digits = asc ''8080''\<rparr>"
  let ?s3 = "\<lparr>output' = ''bore.pub'', found_bore_pub = False, port_digits = []\<rparr>"
  let ?t2 = "Iteration (Inr 0) (Byte CHR '' '') (Some OSError) None"
  let ?t3 = "Iteration (Inr 0) (Byte CHR '':'') (Some OSError) None"
  let ?t4 = "Iteration (Inr 0) (ReadRaises OSError) None (Some KeyboardInterrupt)"
  let ?ts = "[Tick 0 (ReadRaises KeyboardInterrupt), Tick 15 Eof]"
  have last: "\<And>st. scan_loop U0 st [Tick 15 Eof] = ([], Expired st)"
    by (simp add: scan_loop_past_budget [where e = 15])
  have "scan_loop U0 init (Tick 0 (ReadRaises KeyboardInterrupt) # [Tick 15 Eof]) =
      emit [Sleep] (scan_loop U0 init [Tick 15 Eof])"
    using try_block_swallows_errors
      [where t = "Tick 0 (ReadRaises KeyboardInterrupt)" and e = 0 and x = KeyboardInterrupt
        and U = U0 and st = init and ts = "[Tick 15 Eof]", THEN conjunct1]
    by simp
  then have one: "scan_loop U0 init ?ts = ([Sleep], Expired init)"
    by (simp add: last emit_pair)
  have "scan_loop U0 ?s2 (?t2 # [Tick 15 Eof]) =
      emit [Sleep] (scan_loop U0 (?s2\<lparr>output' := output' ?s2 @ [CHR '' '']\<rparr>) [Tick 15 Eof])"
    using try_block_swallows_errors
      [where t = ?t2 and e = 0 and x = OSError and b = "CHR '' ''"
        and U = U0 and st = ?s2 and ts = "[Tick 15 Eof]", THEN conjunct2, THEN conjunct1]
    by (simp add: decode_single isdigit_single isdigit_def ascii_digit_def asc_def U0_def)
  then have two: "scan_loop U0 ?s2 [?t2, Tick 15 Eof] =
      ([Sleep], Expired
        \<lparr>output' = ''bore.pub:8080 '', found_bore_pub = True, port_digits = asc ''8080''\<rparr>)"
    by (simp add: last emit_pair)
  have "scan_loop U0 ?s3 (?t3 # [Tick 15 Eof]) =
      scan_loop U0 (?s3\<lparr>output' := output' ?s3 @ [CHR '':''], found_bore_pub := True\<rparr>)
        [Tick 15 Eof]"
    using try_block_swallows_errors
      [where t = ?t3 and e = 0 and x = OSError and b = "CHR '':''"
        and U = U0 and st = ?s3 and ts = "[Tick 15 Eof]",
        THEN conjunct2, THEN conjunct2, THEN conjunct1]
      marker_at_start
    by simp
  then have three: "scan_loop U0 ?s3 [?t3, Tick 15 Eof] =
      ([], Expired \<lparr>output' = ''bore.pub:'', found_bore_pub = True, port_digits = []\<rparr>)"
    by (simp add: last)
  have four: "snd (scan_loop U0 init [?t4]) = Escaped KeyboardInterrupt"
    by (simp add: scan_loop.simps try_body_def)
  have five: "\<exists>t'\<in>set [?t4]. test t' = Inl KeyboardInterrupt \<or>
      sleep_raises t' = Some KeyboardInterrupt"
    using try_block_swallows_errors
      [where U = U0 and st = init and ts' = "[?t4]" and y = KeyboardInterrupt,
        THEN conjunct2, THEN conjunct2, THEN conjunct2, THEN conjunct1]
      four
    by (rule mp)
  have six: "list_all guarded ?ts"
    by simp
  have seven: "snd (scan_loop U0 init ?ts) \<noteq> Escaped KeyboardInterrupt"
    using try_block_swallows_errors
      [where U = U0 and st = init and ts' = ?ts,
        THEN conjunct2, THEN conjunct2, THEN conjunct2, THEN conjunct2]
      six
    by blast
  from one two three four five six seven show ?thesis
    by (intro conjI)
qed

text \<open>
  C6 as stated has no exception leave the loop. The handler's \<^verbatim>\<open>time.sleep(0.01)\<close>
  stands outside the \<^verbatim>\<open>try\<close> block, and so does the loop test: the first read raises
  \<^verbatim>\<open>OSError\<close>, which is swallowed, and the sleep that follows is interrupted from the
  keyboard; or the loop test itself is interrupted. Either way the interrupt reaches
  the caller of \<^verbatim>\<open>capture_bore_url\<close>.
\<close>

theorem interrupt_outside_try_counterexample:
  "capture_bore_url U0
     (world0 [Iteration (Inr 0) (ReadRaises OSError) None (Some KeyboardInterrupt)]) =
     ([Print Starting, Popen, Print Reading, Sleep], Raises KeyboardInterrupt)
   \<and> snd (capture_bore_url U0 (world0 [Iteration (Inl KeyboardInterrupt) Eof None None])) =
     Raises KeyboardInterrupt"
  by (simp add: capture_bore_url_def world0_def scan_loop.simps try_body_def emit_pair)

text \<open>
  C7. A URL was captured, \<^verbatim>\<open>send_email\<close> returned, and the wait for the child is
  interrupted. Then the whole log of the program holds exactly one request to terminate,
  it is for the child that was spawned, it comes right after the wait, and the program
  prints \<^verbatim>\<open>Stopped.\<close> and ends normally.
\<close>

theorem interrupt_terminates_once:
  assumes "snd (capture_bore_url U w) = Returns (Some u, p)"
    and "snd (send_email w u) = Returns sent"
    and "wait w = WaitRaises KeyboardInterrupt"
  shows "filter terminates (fst (main U w)) = [Terminate p]
    \<and> (\<exists>before. fst (main U w) = before @ [WaitFor p, Terminate p, Print Stopped])
    \<and> snd (main U w) = Returns ()"
proof -
  have m: "main U w =
    emit (fst (capture_bore_url U w) @ [Print Rule, Print (Success u), Print Rule]
            @ fst (send_email w u) @ [Print (if sent then EmailOk else EmailFailedUrlShown)])
      (wait_phase w p)"
    using assms(1,2) by (rule main_captured_sent)
  have wp: "wait_phase w p =
      ([Print BoreRunning, WaitFor p, Terminate p, Print Stopped], Returns ())"
    by (simp add: wait_phase_def assms(3) emit_pair)
  have "filter terminates (fst (main U w)) = [Terminate p]"
    by (simp add: m wp capture_quiet send_email_quiet)
  moreover have "fst (main U w) =
      (fst (capture_bore_url U w) @ [Print Rule, Print (Success u), Print Rule]
        @ fst (send_email w u) @ [Print (if sent then EmailOk else EmailFailedUrlShown)]
        @ [Print BoreRunning]) @ [WaitFor p, Terminate p, Print Stopped]"
    by (simp add: m wp)
  moreover have "snd (main U w) = Returns ()"
    by (simp add: m wp)
  ultimately show ?thesis by blast
qed

text \<open>
  The stream \<^verbatim>\<open>bore.pub:8080 \<close>, the mail sent, and an interrupt during the wait.
\<close>

theorem interrupt_terminates_once_witness:
  "filter terminates
     (fst (main U0 (world0 (arrive 0 ''bore.pub:8080 '')\<lparr>wait := WaitRaises KeyboardInterrupt\<rparr>)))
     = [Terminate 7]
   \<and> snd (main U0 (world0 (arrive 0 ''bore.pub:8080 '')\<lparr>wait := WaitRaises KeyboardInterrupt\<rparr>))
     = Returns ()"
proof -
  let ?w = "world0 (arrive 0 ''bore.pub:8080 '')\<lparr>wait := WaitRaises KeyboardInterrupt\<rparr>"
  let ?u = "asc ''http://bore.pub:8080/opds/all''"
  have cap: "snd (capture_bore_url U0 ?w) = Returns (Some ?u, 7)"
    unfolding capture_ignores_wait by (rule example_fast)
  have "list_all (\<lambda>s. smtp ?w s = None) [Connect, Starttls, Login, SendMessage, Quit]"
    by (simp add: world0_def)
  then have mail: "snd (send_email ?w ?u) = Returns True"
    by (rule send_email_ok)
  have int: "wait ?w = WaitRaises KeyboardInterrupt"
    by simp
  from interrupt_terminates_once [OF cap mail int] show ?thesis
    by blast
qed

text \<open>
  C8. Whatever \<^verbatim>\<open>capture_bore_url\<close> does, it asks no process to terminate; and when it
  returns, with or without a URL, the handle it returns is the one of the child it
  spawned.
\<close>

theorem capture_leaves_child_running:
  "filter terminates (fst (capture_bore_url U w)) = []
   \<and> (\<forall>url p. snd (capture_bore_url U w) = Returns (url, p) \<longrightarrow> spawn w = Inr p)"
  using capture_quiet [of U w] capture_handle [of U w] by blast

text \<open>
  The fast path on the stream \<^verbatim>\<open>bore.pub:8080 \<close>.
\<close>

theorem capture_leaves_child_running_witness:
  "filter terminates (fst (capture_bore_url U0 (world0 (arrive 0 ''bore.pub:8080 '')))) = []
   \<and> spawn (world0 (arrive 0 ''bore.pub:8080 '')) = Inr 7"
  using capture_leaves_child_running [of U0 "world0 (arrive 0 ''bore.pub:8080 '')"] example_fast
  by blast



text \<open>
  C10. Every URL that \<^verbatim>\<open>capture_bore_url\<close> returns is \<^verbatim>\<open>http://bore.pub:\<close>, then a port
  of at least four characters, all of them decimal digits, then \<^verbatim>\<open>/opds/all\<close> or
  \<^verbatim>\<open>/\<close>.
\<close>

theorem url_port_is_numeric:
  assumes "snd (capture_bore_url U w) = Returns (Some u, p)"
  shows "\<exists>port suffix. u = asc ''http://bore.pub:'' @ port @ suffix \<and>
      4 \<le> length port \<and> list_all (re_digit U) port \<and>
      (suffix = asc ''/opds/all'' \<or> suffix = asc ''/'')"
proof -
  have sp: "spawn w = Inr p"
    using assms by (rule capture_handle)
  show ?thesis
  proof (cases "snd (scan_loop U init (ticks w))")
    case (FastPath v)
    with assms have "v = u"
      by (simp add: capture_by_exit [OF sp])
    with FastPath have "snd (scan_loop U init (ticks w)) = FastPath u" by simp
    then obtain port where "u = fast_url port" "4 \<le> length port" "list_all ascii_digit port"
      using scan_loop_fast_form [of U init "ticks w" u] by (auto simp: init_def)
    then have "u = asc ''http://bore.pub:'' @ port @ asc ''/opds/all'' \<and>
      4 \<le> length port \<and> list_all (re_digit U) port"
      by (auto simp: fast_url_def list_all_iff ascii_digit_re_digit)
    then show ?thesis by blast
  next
    case (Expired st)
    with assms have fb: "snd (fallback U st) = Some u"
      by (simp add: capture_by_exit [OF sp])
    then obtain port where port: "re_search U (decode (output' st)) = Some port"
      and u: "u = fallback_url port"
      by (auto simp: fallback_def Let_def split: option.splits)
    have "4 \<le> length port" "list_all (re_digit U) port"
      using re_search_Some(2,3) [OF port] by simp_all
    with u have "u = asc ''http://bore.pub:'' @ port @ asc ''/'' \<and>
      4 \<le> length port \<and> list_all (re_digit U) port"
      by (simp add: fallback_url_def)
    then show ?thesis by blast
  next
    case Blocked
    with assms show ?thesis
      by (simp add: capture_by_exit [OF sp])
  next
    case (Escaped x)
    with assms show ?thesis
      by (simp add: capture_by_exit [OF sp])
  qed
qed

text \<open>
  The URL of the stream \<^verbatim>\<open>bore.pub:8080 \<close>.
\<close>

theorem url_port_is_numeric_witness:
  "\<exists>port suffix. asc ''http://bore.pub:8080/opds/all'' = asc ''http://bore.pub:'' @ port @ suffix \<and>
      4 \<le> length port \<and> list_all (re_digit U0) port \<and>
      (suffix = asc ''/opds/all'' \<or> suffix = asc ''/'')"
  by (rule url_port_is_numeric [OF example_fast])

end
